theory Spec2Isabelle
  imports Main "HOL-Library.Word"
begin

section \<open>The duty-cycle controller of arduino/main.cpp\<close>

text \<open>
  The sketch keeps two globals, \<open>int pwn\<close> and \<open>String buffer\<close>, reads bytes from the
  serial port and writes \<open>pwn\<close> to a PWM pin at the end of every \<open>loop()\<close>.

  Data model. The sketch is written for the Arduino core; on the ATmega boards of that
  core (Uno, Nano, Mega) \<open>int\<close> has 16 bits and \<open>long\<close> has 32, both two's complement,
  and a conversion from \<open>long\<close> to \<open>int\<close> keeps the low 16 bits. \<open>char\<close> is a byte, an
  Arduino \<open>String\<close> is a sequence of bytes; appending to it is taken to succeed always
  (the sketch sets no bound on the length of a line). Line 12 of the file reads
  \<^verbatim>\<open>while Serial.available()) {\<close>; the embedding reads it as
  \<^verbatim>\<open>while (Serial.available()) {\<close>. \<open>setup()\<close> opens the serial port and makes the
  pin an output; it touches neither global.
\<close>

type_synonym c_int = "16 word"
type_synonym c_long = "32 word"

definition PWM_PIN :: c_int where
  "PWM_PIN = 9"

definition newline :: char where
  "newline = CHR 0x0A"

subsection \<open>Library functions the sketch calls\<close>

text \<open>
  Modelled from the spec: \<open>isDigit\<close> is a function of the Arduino core, not of the
  sketch. The spec names the decimal digits \<open>0\<close> to \<open>9\<close>, the bytes 48 to 57.
\<close>

definition isDigit :: "char \<Rightarrow> bool" where
  "isDigit c \<longleftrightarrow> 48 \<le> (of_char c :: nat) \<and> (of_char c :: nat) \<le> 57"

definition digit_of :: "char \<Rightarrow> nat" where
  "digit_of c = of_char c - 48"

text \<open>
  Modelled from the spec: \<open>String::toInt\<close> is a function of the Arduino core, not of
  the sketch. The spec has it convert the accumulated digit sequence to an integer, the
  empty sequence to 0. The core returns \<open>atol\<close> of the characters, a \<open>long\<close>: blanks
  are skipped, a sign is read, then the digits up to the first other character are
  accumulated in base ten. The C library leaves the result open when the number does not
  fit a \<open>long\<close>; the accumulation here wraps around, as the library of the ATmega boards
  does.
\<close>

definition isSpace :: "char \<Rightarrow> bool" where
  "isSpace c \<longleftrightarrow> (of_char c :: nat) = 32 \<or> (9 \<le> (of_char c :: nat) \<and> (of_char c :: nat) \<le> 13)"

fun atol_digits :: "c_long \<Rightarrow> string \<Rightarrow> c_long" where
  "atol_digits acc [] = acc"
| "atol_digits acc (c # cs) =
     (if isDigit c then atol_digits (acc * 10 + of_nat (digit_of c)) cs else acc)"

definition atol :: "string \<Rightarrow> c_long" where
  "atol s =
     (case dropWhile isSpace s of
        [] \<Rightarrow> 0
      | c # cs \<Rightarrow>
          if c = CHR ''-'' then - atol_digits 0 cs
          else if c = CHR ''+'' then atol_digits 0 cs
          else atol_digits 0 (c # cs))"

definition toInt :: "string \<Rightarrow> c_long" where
  "toInt s = atol s"

text \<open>The initialisation \<open>int value = buffer.toInt()\<close> narrows a \<open>long\<close> to an \<open>int\<close>.\<close>

definition long_to_int :: "c_long \<Rightarrow> c_int" where
  "long_to_int v = ucast v"

subsection \<open>State\<close>

text \<open>
  The two globals of the sketch, and the two devices it talks to: the bytes waiting in
  the receive queue of the serial port, oldest first, and the calls of \<open>analogWrite\<close>
  made so far, oldest first, each with its pin and its value.
\<close>

record controller =
  pwn :: c_int
  buffer :: string
  serial_rx :: string
  pin_writes :: "(c_int \<times> c_int) list"

text \<open>The globals as initialised in lines 3 and 4, nothing received, nothing written.\<close>

definition initial :: controller where
  "initial = \<lparr>pwn = 0, buffer = [], serial_rx = [], pin_writes = []\<rparr>"

text \<open>
  \<open>Serial.available()\<close> is the number of bytes waiting. \<open>Serial.read()\<close> takes the
  oldest of them and returns it as an \<open>int\<close> between 0 and 255, or returns \<open>-1\<close> when
  none is waiting.
\<close>

definition Serial_available :: "controller \<Rightarrow> nat" where
  "Serial_available s = length (serial_rx s)"

definition Serial_read :: "controller \<Rightarrow> c_int \<times> controller" where
  "Serial_read s =
     (case serial_rx s of
        [] \<Rightarrow> (- 1, s)
      | b # bs \<Rightarrow> (of_nat (of_char b), s\<lparr>serial_rx := bs\<rparr>))"

text \<open>The initialisation \<open>char c = Serial.read()\<close> keeps the low byte of the \<open>int\<close>.\<close>

definition int_to_char :: "c_int \<Rightarrow> char" where
  "int_to_char v = char_of (unat v)"

definition analogWrite :: "c_int \<Rightarrow> c_int \<Rightarrow> controller \<Rightarrow> controller" where
  "analogWrite pin val s = s\<lparr>pin_writes := pin_writes s @ [(pin, val)]\<rparr>"

subsection \<open>The sketch\<close>

text \<open>Lines 15 to 23: what the body of the \<open>while\<close> loop does with the character read.\<close>

definition consume :: "char \<Rightarrow> controller \<Rightarrow> controller" where
  "consume c s =
     (if c = newline then
        (let value = long_to_int (toInt (buffer s));
             s' = (if 0 \<le> sint value \<and> sint value \<le> 255 then s\<lparr>pwn := value\<rparr> else s)
         in s'\<lparr>buffer := []\<rparr>)
      else if isDigit c then s\<lparr>buffer := buffer s @ [c]\<rparr>
      else s)"

text \<open>Lines 12 to 24: the \<open>while\<close> loop, which runs as long as a byte is waiting.\<close>

function drain :: "controller \<Rightarrow> controller" where
  "drain s =
     (if Serial_available s \<noteq> 0 then
        (case Serial_read s of (v, s') \<Rightarrow> drain (consume (int_to_char v) s'))
      else s)"
  by pat_completeness auto
termination
  by (relation "measure (\<lambda>s. length (serial_rx s))")
    (auto simp: Serial_available_def Serial_read_def consume_def Let_def split: list.splits)

declare drain.simps [simp del]

text \<open>Lines 11 to 27: one iteration of \<open>loop()\<close>.\<close>

definition loop :: "controller \<Rightarrow> controller" where
  "loop s = (let s' = drain s in analogWrite PWM_PIN (pwn s') s')"

subsection \<open>The environment\<close>

text \<open>
  Bytes arrive on the serial line while the sketch runs. \<open>receive bs\<close> puts the bytes
  \<open>bs\<close> at the end of the receive queue. A run of the sketch is a list of such arrivals,
  one for each iteration of \<open>loop()\<close>: the bytes (none, one or many) that the iteration
  finds in the queue beyond those already there. A byte that arrives while the \<open>while\<close>
  loop is running is read by that loop, so it belongs to the arrival of that iteration.
\<close>

definition receive :: "string \<Rightarrow> controller \<Rightarrow> controller" where
  "receive bs s = s\<lparr>serial_rx := serial_rx s @ bs\<rparr>"

fun run :: "string list \<Rightarrow> controller \<Rightarrow> controller" where
  "run [] s = s"
| "run (bs # bss) s = run bss (loop (receive bs s))"

text \<open>
  The characters of a byte sequence go through the body of the \<open>while\<close> loop one after
  the other, whatever the iterations of \<open>loop()\<close> they arrive in.
\<close>

fun feed :: "string \<Rightarrow> controller \<Rightarrow> controller" where
  "feed [] s = s"
| "feed (c # cs) s = feed cs (consume c s)"

subsection \<open>Numbers written in decimal\<close>

text \<open>
  The number a sequence of digits denotes: the digit at position \<open>i\<close> from the right
  counts \<open>10 ^ i\<close>.
\<close>

definition numeric_value :: "string \<Rightarrow> nat" where
  "numeric_value ds = horner_sum digit_of 10 (rev ds)"

definition digit_sequence :: "string \<Rightarrow> bool" where
  "digit_sequence ds \<longleftrightarrow> list_all isDigit ds"

text \<open>The duty values the PWM output accepts.\<close>

definition in_duty_range :: "c_int \<Rightarrow> bool" where
  "in_duty_range v \<longleftrightarrow> 0 \<le> sint v \<and> sint v \<le> 255"

section \<open>Properties\<close>

subsection \<open>The loops as a fold of the loop body\<close>

lemma serial_rx_consume [simp]: "serial_rx (consume c s) = serial_rx s"
  by (simp add: consume_def Let_def)

lemma int_to_char_of_char: "int_to_char (of_nat (of_char b)) = b"
proof -
  have "(of_char b :: nat) < 256" by simp
  also have "(256 :: nat) < 2 ^ 16" by simp
  finally have "(of_char b :: nat) < 2 ^ 16" .
  then have "(of_char b :: nat) mod 2 ^ 16 = of_char b" by (rule mod_less)
  then show ?thesis by (simp add: int_to_char_def unat_of_nat)
qed

lemma drain_empty: "serial_rx s = [] \<Longrightarrow> drain s = s"
  by (simp add: drain.simps [of s] Serial_available_def)

lemma drain_byte:
  "serial_rx s = b # bs \<Longrightarrow> drain s = drain (consume b (s\<lparr>serial_rx := bs\<rparr>))"
  by (simp add: drain.simps [of s] Serial_available_def Serial_read_def int_to_char_of_char)

lemma consume_serial_rx_update:
  "consume c (s\<lparr>serial_rx := q\<rparr>) = (consume c s)\<lparr>serial_rx := q\<rparr>"
  by (simp add: consume_def Let_def)

lemma feed_serial_rx_update:
  "feed cs (s\<lparr>serial_rx := q\<rparr>) = (feed cs s)\<lparr>serial_rx := q\<rparr>"
  by (induction cs arbitrary: s) (simp_all add: consume_serial_rx_update)

lemma feed_append: "feed (xs @ ys) s = feed ys (feed xs s)"
  by (induction xs arbitrary: s) simp_all

lemma pin_writes_consume: "pin_writes (consume c s) = pin_writes s"
  by (simp add: consume_def Let_def)

lemma pin_writes_feed: "pin_writes (feed cs s) = pin_writes s"
  by (induction cs arbitrary: s) (simp_all add: pin_writes_consume)

lemma drain_feed_aux:
  "serial_rx s = q \<Longrightarrow> drain s = (feed q s)\<lparr>serial_rx := []\<rparr>"
proof (induction q arbitrary: s)
  case Nil
  then show ?case by (simp add: drain_empty)
next
  case (Cons b bs)
  have "drain s = drain (consume b (s\<lparr>serial_rx := bs\<rparr>))"
    using Cons.prems by (rule drain_byte)
  also have "\<dots> = (feed bs (consume b (s\<lparr>serial_rx := bs\<rparr>)))\<lparr>serial_rx := []\<rparr>"
    by (rule Cons.IH) simp
  also have "\<dots> = (feed (b # bs) s)\<lparr>serial_rx := []\<rparr>"
    by (simp add: consume_serial_rx_update feed_serial_rx_update)
  finally show ?case .
qed

lemma drain_feed: "drain s = (feed (serial_rx s) s)\<lparr>serial_rx := []\<rparr>"
  by (rule drain_feed_aux) simp

lemma loop_feed:
  "loop s = (feed (serial_rx s) s)
     \<lparr>serial_rx := [], pin_writes := pin_writes s @ [(PWM_PIN, pwn (feed (serial_rx s) s))]\<rparr>"
  by (simp add: loop_def Let_def analogWrite_def drain_feed pin_writes_feed)

lemma globals_consume_cong:
  "pwn s = pwn t \<Longrightarrow> buffer s = buffer t \<Longrightarrow>
   pwn (consume c s) = pwn (consume c t) \<and> buffer (consume c s) = buffer (consume c t)"
  by (simp add: consume_def Let_def)

lemma globals_feed_cong:
  "pwn s = pwn t \<Longrightarrow> buffer s = buffer t \<Longrightarrow>
   pwn (feed cs s) = pwn (feed cs t) \<and> buffer (feed cs s) = buffer (feed cs t)"
proof (induction cs arbitrary: s t)
  case Nil
  then show ?case by simp
next
  case (Cons c cs)
  have "pwn (consume c s) = pwn (consume c t) \<and> buffer (consume c s) = buffer (consume c t)"
    using Cons.prems by (rule globals_consume_cong)
  then have "pwn (feed cs (consume c s)) = pwn (feed cs (consume c t)) \<and>
    buffer (feed cs (consume c s)) = buffer (feed cs (consume c t))"
    using Cons.IH by blast
  then show ?case by simp
qed

lemma serial_rx_loop: "serial_rx (loop s) = []"
  by (simp add: loop_feed)

lemma globals_loop_receive:
  "pwn (loop (receive bs s)) = pwn (feed (serial_rx s @ bs) s) \<and>
   buffer (loop (receive bs s)) = buffer (feed (serial_rx s @ bs) s)"
  by (simp add: loop_feed receive_def feed_serial_rx_update)

lemma run_globals:
  "serial_rx s = [] \<Longrightarrow>
   pwn (run bss s) = pwn (feed (concat bss) s) \<and>
   buffer (run bss s) = buffer (feed (concat bss) s)"
proof (induction bss arbitrary: s)
  case Nil
  show ?case by simp
next
  case (Cons bs bss)
  let ?t = "loop (receive bs s)"
  have rx: "serial_rx ?t = []" by (rule serial_rx_loop)
  have "pwn ?t = pwn (feed bs s) \<and> buffer ?t = buffer (feed bs s)"
    using globals_loop_receive [of bs s] Cons.prems by simp
  then have "pwn (feed (concat bss) ?t) = pwn (feed (concat bss) (feed bs s)) \<and>
    buffer (feed (concat bss) ?t) = buffer (feed (concat bss) (feed bs s))"
    using globals_feed_cong by blast
  moreover have "pwn (run bss ?t) = pwn (feed (concat bss) ?t) \<and>
    buffer (run bss ?t) = buffer (feed (concat bss) ?t)"
    using rx by (rule Cons.IH)
  ultimately show ?case by (simp add: feed_append)
qed

lemma serial_rx_run: "serial_rx s = [] \<Longrightarrow> serial_rx (run bss s) = []"
  by (induction bss arbitrary: s) (simp_all add: serial_rx_loop)

lemma pin_writes_loop_receive:
  "pin_writes (loop (receive bs s)) =
   pin_writes s @ [(PWM_PIN, pwn (feed (serial_rx s @ bs) s))]"
  by (simp add: loop_feed receive_def feed_serial_rx_update)

subsection \<open>Reading a number\<close>

lemma numeric_value_Nil: "numeric_value [] = 0"
  by (simp add: numeric_value_def)

lemma numeric_value_Cons:
  "numeric_value (c # cs) = digit_of c * 10 ^ length cs + numeric_value cs"
  by (simp add: numeric_value_def horner_sum_append)

lemma numeric_value_snoc:
  "numeric_value (cs @ [c]) = 10 * numeric_value cs + digit_of c"
  by (simp add: numeric_value_def)

lemma atol_digits_value:
  "list_all isDigit ds \<Longrightarrow>
   atol_digits acc ds = acc * 10 ^ length ds + of_nat (numeric_value ds)"
proof (induction ds arbitrary: acc)
  case Nil
  show ?case by (simp add: numeric_value_Nil)
next
  case (Cons c cs)
  then have "atol_digits acc (c # cs) = atol_digits (acc * 10 + of_nat (digit_of c)) cs"
    by simp
  also have "\<dots> = (acc * 10 + of_nat (digit_of c)) * 10 ^ length cs + of_nat (numeric_value cs)"
    using Cons.prems by (intro Cons.IH) simp
  finally show ?case
    by (simp add: numeric_value_Cons algebra_simps)
qed

lemma isDigit_not_isSpace: "isDigit c \<Longrightarrow> \<not> isSpace c"
  by (simp add: isDigit_def isSpace_def)

lemma isDigit_not_sign: "isDigit c \<Longrightarrow> c \<noteq> CHR ''-'' \<and> c \<noteq> CHR ''+''"
  by (auto simp: isDigit_def)

lemma toInt_digits:
  assumes "digit_sequence ds"
  shows "toInt ds = of_nat (numeric_value ds)"
proof (cases ds)
  case Nil
  then show ?thesis by (simp add: toInt_def atol_def numeric_value_Nil)
next
  case (Cons c cs)
  have d: "list_all isDigit (c # cs)" using assms Cons by (simp add: digit_sequence_def)
  then have c: "isDigit c" by simp
  have "dropWhile isSpace (c # cs) = c # cs"
    using isDigit_not_isSpace [OF c] by simp
  then have "toInt (c # cs) = atol_digits 0 (c # cs)"
    using isDigit_not_sign [OF c] by (simp add: toInt_def atol_def)
  also have "\<dots> = of_nat (numeric_value (c # cs))"
    using atol_digits_value [OF d, of 0] by simp
  finally show ?thesis using Cons by simp
qed

lemma long_to_int_of_nat: "long_to_int (of_nat n) = of_nat n"
  unfolding long_to_int_def
  by (simp add: unsigned_of_nat word_of_nat_eq_iff)



lemma mod_65536_upper:
  fixes k :: int
  assumes "32768 \<le> k" "k < 65536"
  shows "(k + 32768) mod 65536 = k - 32768"
proof -
  have e: "k + 32768 = (k - 32768) + 65536"
    by simp
  have "(k + 32768) mod 65536 = ((k - 32768) + 65536) mod 65536"
    by (subst e) (rule refl)
  also have "\<dots> = (k - 32768) mod 65536"
    by (rule mod_add_self2)
  also have "\<dots> = k - 32768"
    using assms by (simp add: mod_pos_pos_trivial)
  finally show ?thesis .
qed

lemma sint_c_int: "sint (w :: c_int) = (if uint w < 32768 then uint w else uint w - 65536)"
proof -
  have b: "0 \<le> uint w" "uint w < 65536"
    using uint_lt2p [of w] by simp_all
  have "sint w = signed_take_bit 15 (uint w)"
    by (simp add: sint_uint)
  also have "\<dots> = (uint w + 32768) mod 65536 - 32768"
    by (simp add: signed_take_bit_eq_take_bit_shift take_bit_eq_mod)
  finally have s: "sint w = (uint w + 32768) mod 65536 - 32768" .
  show ?thesis
  proof (cases "uint w < 32768")
    case True
    then show ?thesis using s b by (simp add: mod_pos_pos_trivial)
  next
    case False
    then have "(uint w + 32768) mod 65536 = uint w - 32768"
      using b by (intro mod_65536_upper) simp_all
    then show ?thesis using s False by simp
  qed
qed

lemma in_duty_range_uint: "in_duty_range w \<longleftrightarrow> uint w \<le> 255"
  using uint_lt2p [of w] by (simp add: in_duty_range_def sint_c_int)

lemma uint_c_int_of_nat: "uint (of_nat n :: c_int) = int (n mod 65536)"
proof -
  have "uint (of_nat n :: c_int) = int (unat (of_nat n :: c_int))"
    by simp
  also have "\<dots> = int (n mod 65536)"
    by (simp only: unat_of_nat) simp
  finally show ?thesis .
qed

lemma in_duty_range_of_nat: "in_duty_range (of_nat n) \<longleftrightarrow> n mod 65536 \<le> 255"
  by (simp add: in_duty_range_uint uint_c_int_of_nat)

lemma sint_of_nat_small: "n \<le> 255 \<Longrightarrow> sint (of_nat n :: c_int) = int n"
  by (simp add: sint_c_int uint_c_int_of_nat)

subsection \<open>The loop body, case by case\<close>

lemma isDigit_not_newline: "isDigit c \<Longrightarrow> c \<noteq> newline"
  by (auto simp: isDigit_def newline_def)

lemma consume_digit: "isDigit c \<Longrightarrow> consume c s = s\<lparr>buffer := buffer s @ [c]\<rparr>"
  by (simp add: consume_def isDigit_not_newline)

lemma consume_other: "c \<noteq> newline \<Longrightarrow> \<not> isDigit c \<Longrightarrow> consume c s = s"
  by (simp add: consume_def)

lemma consume_newline:
  "consume newline s =
     (if in_duty_range (long_to_int (toInt (buffer s)))
      then s\<lparr>pwn := long_to_int (toInt (buffer s)), buffer := []\<rparr>
      else s\<lparr>buffer := []\<rparr>)"
  by (simp add: consume_def Let_def in_duty_range_def)

lemma consume_newline_digits:
  assumes "digit_sequence (buffer s)"
  shows "consume newline s =
     (if numeric_value (buffer s) mod 65536 \<le> 255
      then s\<lparr>pwn := of_nat (numeric_value (buffer s)), buffer := []\<rparr>
      else s\<lparr>buffer := []\<rparr>)"
  by (simp add: consume_newline toInt_digits [OF assms] long_to_int_of_nat in_duty_range_of_nat)

lemma feed_digits: "digit_sequence ds \<Longrightarrow> feed ds s = s\<lparr>buffer := buffer s @ ds\<rparr>"
proof (induction ds arbitrary: s)
  case Nil
  show ?case by simp
next
  case (Cons c cs)
  then have c: "isDigit c" and cs: "digit_sequence cs"
    by (simp_all add: digit_sequence_def)
  show ?case by (simp add: consume_digit [OF c] Cons.IH [OF cs])
qed

lemma feed_line:
  assumes "digit_sequence ds" "buffer s = []"
  shows "feed (ds @ [newline]) s =
     (if numeric_value ds mod 65536 \<le> 255
      then s\<lparr>pwn := of_nat (numeric_value ds), buffer := []\<rparr>
      else s\<lparr>buffer := []\<rparr>)"
proof -
  let ?t = "s\<lparr>buffer := ds\<rparr>"
  have "feed (ds @ [newline]) s = consume newline ?t"
    using assms by (simp add: feed_append feed_digits)
  moreover have "digit_sequence (buffer ?t)" using assms by simp
  ultimately show ?thesis
    by (simp add: consume_newline_digits)
qed

lemma buffer_feed_no_digits:
  "buffer s = [] \<Longrightarrow> \<forall>c\<in>set cs. \<not> isDigit c \<Longrightarrow> buffer (feed cs s) = []"
proof (induction cs arbitrary: s)
  case Nil
  then show ?case by simp
next
  case (Cons c cs)
  have "buffer (consume c s) = []"
    using Cons.prems by (cases "c = newline") (simp_all add: consume_newline consume_other)
  then show ?case using Cons.prems by (simp add: Cons.IH)
qed

lemma pwn_consume: "pwn (consume c s) = pwn s \<or> in_duty_range (pwn (consume c s))"
  by (simp add: consume_def Let_def in_duty_range_def)

lemma in_duty_range_consume: "in_duty_range (pwn s) \<Longrightarrow> in_duty_range (pwn (consume c s))"
  using pwn_consume [of c s] by auto

lemma in_duty_range_feed: "in_duty_range (pwn s) \<Longrightarrow> in_duty_range (pwn (feed cs s))"
  by (induction cs arbitrary: s) (simp_all add: in_duty_range_consume)

lemma consume_newline_empty:
  "buffer s = [] \<Longrightarrow> consume newline s = s\<lparr>pwn := 0, buffer := []\<rparr>"
  by (simp add: consume_def Let_def toInt_def atol_def long_to_int_def)

subsection \<open>Runs\<close>

text \<open>
  A line of digits that arrives in any number of pieces, with the buffer empty before
  it: the duty value becomes the number when the low 16 bits of the number are at most
  255, and stays what it was otherwise.
\<close>

lemma run_line:
  assumes "digit_sequence ds" and "buffer s = []" and "serial_rx s = []"
    and "concat bss = ds @ [newline]"
  shows "pwn (run bss s) =
    (if numeric_value ds mod 65536 \<le> 255 then of_nat (numeric_value ds) else pwn s)"
proof -
  have "pwn (run bss s) = pwn (feed (ds @ [newline]) s)"
    using run_globals [OF assms(3), of bss] assms(4) by simp
  then show ?thesis
    by (simp add: feed_line [OF assms(1,2)])
qed

lemma length_pin_writes_run:
  "length (pin_writes (run bss s)) = length (pin_writes s) + length bss"
  by (induction bss arbitrary: s) (simp_all add: pin_writes_loop_receive)

lemma pin_writes_loop: "pin_writes (loop s) = pin_writes s @ [(PWM_PIN, pwn (drain s))]"
  by (simp add: loop_def Let_def analogWrite_def drain_feed pin_writes_feed)

lemma pwn_loop: "pwn (loop s) = pwn (drain s)"
  by (simp add: loop_def Let_def analogWrite_def)

lemma in_duty_range_run:
  "serial_rx s = [] \<Longrightarrow> in_duty_range (pwn s) \<Longrightarrow> in_duty_range (pwn (run bss s))"
  using run_globals [of s bss] by (simp add: in_duty_range_feed)

lemma pin_writes_run_in_range:
  "in_duty_range (pwn s) \<Longrightarrow> list_all (\<lambda>w. in_duty_range (snd w)) (pin_writes s) \<Longrightarrow>
   list_all (\<lambda>w. in_duty_range (snd w)) (pin_writes (run bss s))"
proof (induction bss arbitrary: s)
  case Nil
  then show ?case by simp
next
  case (Cons bs bss)
  let ?t = "loop (receive bs s)"
  have p: "in_duty_range (pwn ?t)"
    using Cons.prems(1) globals_loop_receive [of bs s] by (simp add: in_duty_range_feed)
  have "list_all (\<lambda>w. in_duty_range (snd w)) (pin_writes ?t)"
    using Cons.prems by (simp add: pin_writes_loop_receive in_duty_range_feed)
  with p show ?case by (simp add: Cons.IH)
qed

text \<open>
  Two runs with the same arrivals, from states with the same globals, add the same
  writes to whatever was written before.
\<close>

lemma run_new_writes:
  "pwn s = pwn t \<Longrightarrow> buffer s = buffer t \<Longrightarrow> serial_rx s = [] \<Longrightarrow> serial_rx t = [] \<Longrightarrow>
   \<exists>ws. pin_writes (run bss s) = pin_writes s @ ws \<and> pin_writes (run bss t) = pin_writes t @ ws"
proof (induction bss arbitrary: s t)
  case Nil
  show ?case by simp
next
  case (Cons bs bss)
  let ?s = "loop (receive bs s)" and ?t = "loop (receive bs t)"
  have g: "pwn (feed bs s) = pwn (feed bs t) \<and> buffer (feed bs s) = buffer (feed bs t)"
    using Cons.prems(1,2) by (rule globals_feed_cong)
  have p: "pwn ?s = pwn ?t" and b: "buffer ?s = buffer ?t"
    using g globals_loop_receive [of bs s] globals_loop_receive [of bs t] Cons.prems(3,4)
    by simp_all
  obtain ws where ws: "pin_writes (run bss ?s) = pin_writes ?s @ ws"
    "pin_writes (run bss ?t) = pin_writes ?t @ ws"
    using Cons.IH [OF p b serial_rx_loop serial_rx_loop] by blast
  let ?w = "(PWM_PIN, pwn (feed bs s))"
  have "pin_writes ?s = pin_writes s @ [?w]" "pin_writes ?t = pin_writes t @ [?w]"
    using g Cons.prems(3,4) by (simp_all add: pin_writes_loop_receive)
  then have "pin_writes (run (bs # bss) s) = pin_writes s @ (?w # ws) \<and>
    pin_writes (run (bs # bss) t) = pin_writes t @ (?w # ws)"
    using ws by simp
  then show ?case by blast
qed

section \<open>The claims\<close>

text \<open>
  In the statements below a line is processed from a state with an empty buffer and an
  empty receive queue, and its bytes may arrive in any number of pieces: \<open>bss\<close> is the
  list of arrivals, one for each iteration of \<open>loop()\<close>, and \<open>concat bss\<close> is the line.
\<close>

text \<open>
  C1. For every digit sequence followed by a newline whose numeric value exceeds 255,
  processing the line leaves the duty value unchanged, for any prior duty value and any
  length of the sequence. The sketch compares the number only after \<open>int value\<close> has
  kept its low 16 bits (\<open>run_line\<close>): after the line \<open>50\<close> has set the duty value to
  50, the line \<open>65536\<close>, whose value exceeds 255, sets it to 0.
\<close>

theorem line_65536_overwrites_duty:
  "numeric_value ''65536'' = 65536 \<and>
   sint (pwn (run [''50'' @ [newline]] initial)) = 50 \<and>
   sint (pwn (run [''50'' @ [newline], ''65536'' @ [newline]] initial)) = 0"
proof -
  have r: "serial_rx initial = []" by (simp add: initial_def)
  have v: "numeric_value ''65536'' = 65536"
    by (simp add: numeric_value_def digit_of_def)
  have a: "feed (''50'' @ [newline]) initial = initial\<lparr>pwn := 50\<rparr>"
    by (simp add: initial_def consume_def isDigit_def newline_def toInt_def atol_def
        isSpace_def digit_of_def long_to_int_def)
  have b: "feed (''65536'' @ [newline]) (initial\<lparr>pwn := 50\<rparr>) = initial"
    by (simp add: initial_def consume_def isDigit_def newline_def toInt_def atol_def
        isSpace_def digit_of_def long_to_int_def)
  have "pwn (run [''50'' @ [newline]] initial) = 50"
    using run_globals [OF r, of "[''50'' @ [newline]]"] a by simp
  moreover have "pwn (run [''50'' @ [newline], ''65536'' @ [newline]] initial) = 0"
    using run_globals [OF r, of "[''50'' @ [newline], ''65536'' @ [newline]]"]
      feed_append [of "''50'' @ [newline]" "''65536'' @ [newline]" initial] a b
    by (simp add: initial_def)
  ultimately show ?thesis using v by simp
qed

text \<open>
  C2. The duty value starts at 0; after any run of the sketch, and after any sequence
  of bytes has gone through the loop body, it lies within 0 to 255; a step of the loop
  body either leaves it as it is or stores a value within that range; and every value
  written to the pin lies within that range.
\<close>

theorem duty_value_invariant:
  "pwn initial = 0 \<and>
   in_duty_range (pwn (run bss initial)) \<and>
   in_duty_range (pwn (feed cs initial)) \<and>
   (pwn (consume c s) = pwn s \<or> in_duty_range (pwn (consume c s))) \<and>
   list_all (\<lambda>w. in_duty_range (snd w)) (pin_writes (run bss initial))"
proof -
  have i: "in_duty_range (pwn initial)" "serial_rx initial = []"
    "list_all (\<lambda>w. in_duty_range (snd w)) (pin_writes initial)"
    by (simp_all add: initial_def in_duty_range_def)
  show ?thesis
    using i in_duty_range_run [of initial bss] in_duty_range_feed [of initial cs]
      pwn_consume [of c s] pin_writes_run_in_range [of initial bss]
    by (simp add: initial_def)
qed

text \<open>
  C3. For every digit sequence \<open>S\<close> of length 1 to 3 followed by a newline, if the
  numeric value of \<open>S\<close> is at most 255, then after the line has been processed the duty
  value is the numeric value of \<open>S\<close>.
\<close>

theorem in_range_line_sets_duty:
  assumes "digit_sequence S" and "1 \<le> length S" and "length S \<le> 3"
    and "numeric_value S \<le> 255"
    and "buffer s = []" and "serial_rx s = []"
    and "concat bss = S @ [newline]"
  shows "sint (pwn (run bss s)) = int (numeric_value S)"
proof -
  have "numeric_value S mod 65536 = numeric_value S"
    using assms(4) by simp
  then have "pwn (run bss s) = of_nat (numeric_value S)"
    using assms(4) by (simp add: run_line [OF assms(1,5,6,7)])
  then show ?thesis
    using assms(4) by (simp add: sint_of_nat_small)
qed

theorem in_range_line_sets_duty_witness:
  "digit_sequence ''128'' \<and> numeric_value ''128'' = 128 \<and>
   sint (pwn (run [''12'', [], ''8'' @ [newline]] initial)) = 128"
proof -
  have d: "digit_sequence ''128''"
    by (simp add: digit_sequence_def isDigit_def)
  have v: "numeric_value ''128'' = 128"
    by (simp add: numeric_value_def digit_of_def)
  have "sint (pwn (run [''12'', [], ''8'' @ [newline]] initial)) = int (numeric_value ''128'')"
    using d by (intro in_range_line_sets_duty) (simp_all add: v initial_def)
  then show ?thesis using d by (simp add: v)
qed

text \<open>
  C4. A byte that is neither a digit nor the newline leaves the state as it is, the
  buffer and the duty value with it, whatever the buffer and the duty value are.
\<close>

theorem other_byte_ignored:
  "c \<noteq> newline \<Longrightarrow> \<not> isDigit c \<Longrightarrow>
   consume c s = s \<and> buffer (consume c s) = buffer s \<and> pwn (consume c s) = pwn s"
  by (simp add: consume_other)

theorem other_byte_ignored_witness:
  "CHR ''a'' \<noteq> newline \<and> \<not> isDigit (CHR ''a'') \<and>
   consume (CHR ''a'') \<lparr>pwn = 50, buffer = ''7'', serial_rx = ''5'', pin_writes = []\<rparr> =
     \<lparr>pwn = 50, buffer = ''7'', serial_rx = ''5'', pin_writes = []\<rparr>"
proof -
  have n: "CHR ''a'' \<noteq> newline" by (simp add: newline_def)
  have d: "\<not> isDigit (CHR ''a'')" by (simp add: isDigit_def)
  show ?thesis
    using n d
      other_byte_ignored [OF n d,
        of "\<lparr>pwn = 50, buffer = ''7'', serial_rx = ''5'', pin_writes = []\<rparr>"]
    by simp
qed

text \<open>
  C5. From an empty buffer, the input \<open>7a5\<close> and a newline: the \<open>a\<close> changes nothing,
  the buffer holds \<open>75\<close> once the three characters are read and the duty value is still
  what it was, and after the newline the duty value is 75 and the buffer is empty.
\<close>

theorem line_7a5_sets_duty_75:
  assumes "buffer s = []" and "serial_rx s = []"
    and "concat bss = ''7a5''" and "concat bss' = ''7a5'' @ [newline]"
  shows "consume (CHR ''a'') (feed ''7'' s) = feed ''7'' s \<and>
    buffer (run bss s) = ''75'' \<and> pwn (run bss s) = pwn s \<and>
    sint (pwn (run bss' s)) = 75 \<and> buffer (run bss' s) = []"
proof -
  have a: "consume (CHR ''a'') (feed ''7'' s) = feed ''7'' s"
    by (simp add: consume_def isDigit_def newline_def)
  have f: "feed ''7a5'' s = s\<lparr>buffer := ''75''\<rparr>"
    using assms(1) by (simp add: consume_def isDigit_def newline_def)
  have d: "digit_sequence (buffer (s\<lparr>buffer := ''75''\<rparr>))"
    by (simp add: digit_sequence_def isDigit_def)
  have v: "numeric_value ''75'' = 75"
    by (simp add: numeric_value_def digit_of_def)
  have g: "feed (''7a5'' @ [newline]) s = s\<lparr>pwn := 75, buffer := []\<rparr>"
    unfolding feed_append f by (simp add: consume_newline_digits [OF d] v)
  have "sint (75 :: c_int) = 75" by simp
  then show ?thesis
    using run_globals [OF assms(2), of bss] run_globals [OF assms(2), of bss'] a
    by (simp only: assms(3,4) f g) simp
qed

theorem line_7a5_sets_duty_75_witness:
  "buffer (run [''7'', ''a5''] initial) = ''75'' \<and>
   sint (pwn (run [''7'', ''a5'' @ [newline]] initial)) = 75"
  using line_7a5_sets_duty_75 [of initial "[''7'', ''a5'']" "[''7'', ''a5'' @ [newline]]"]
  by (simp add: initial_def)

text \<open>
  C6. A newline that finds the buffer empty sets the duty value to 0 (and leaves the
  buffer empty).
\<close>

theorem empty_line_sets_duty_zero:
  "buffer s = [] \<Longrightarrow> pwn (consume newline s) = 0 \<and> buffer (consume newline s) = []"
  by (simp add: consume_newline_empty)

theorem empty_line_sets_duty_zero_witness:
  "pwn (consume newline \<lparr>pwn = 50, buffer = [], serial_rx = [], pin_writes = []\<rparr>) = 0"
  using empty_line_sets_duty_zero
    [of "\<lparr>pwn = 50, buffer = [], serial_rx = [], pin_writes = []\<rparr>"]
  by simp

text \<open>
  C7. After a newline has been processed the buffer is empty, whatever it held before
  and whether or not the number read from it was stored as the duty value.
\<close>

theorem newline_clears_buffer:
  "buffer (consume newline s) = []"
  by (simp add: consume_def Let_def)

text \<open>
  C8. An iteration of \<open>loop()\<close> adds exactly one write to those made before, of the
  duty value as it is after the \<open>while\<close> loop, to the PWM pin; the \<open>while\<close> loop leaves
  no byte waiting; an iteration that finds no byte waiting writes the duty value as it
  was; and a run of \<open>n\<close> iterations makes \<open>n\<close> writes, whatever arrived.
\<close>

theorem loop_writes_duty_once:
  "pin_writes (loop s) = pin_writes s @ [(PWM_PIN, pwn (drain s))] \<and>
   pwn (loop s) = pwn (drain s) \<and>
   Serial_available (drain s) = 0 \<and>
   (Serial_available s = 0 \<longrightarrow> loop s = analogWrite PWM_PIN (pwn s) s) \<and>
   length (pin_writes (run bss s)) = length (pin_writes s) + length bss"
proof -
  have "Serial_available (drain s) = 0"
    by (simp add: Serial_available_def drain_feed)
  moreover have "Serial_available s = 0 \<longrightarrow> loop s = analogWrite PWM_PIN (pwn s) s"
    by (simp add: Serial_available_def loop_def Let_def drain_empty)
  ultimately show ?thesis
    by (simp add: pin_writes_loop pwn_loop length_pin_writes_run)
qed

theorem loop_writes_duty_once_witness:
  "Serial_available \<lparr>pwn = 50, buffer = ''7'', serial_rx = [], pin_writes = [(9, 50)]\<rparr> = 0 \<and>
   loop \<lparr>pwn = 50, buffer = ''7'', serial_rx = [], pin_writes = [(9, 50)]\<rparr> =
     \<lparr>pwn = 50, buffer = ''7'', serial_rx = [], pin_writes = [(9, 50), (9, 50)]\<rparr>"
  using loop_writes_duty_once
    [of "\<lparr>pwn = 50, buffer = ''7'', serial_rx = [], pin_writes = [(9, 50)]\<rparr>" "[]"]
  by (simp add: Serial_available_def analogWrite_def PWM_PIN_def)

text \<open>
  C9. A line without a digit, processed from an empty buffer, sets the duty value to
  0: its bytes leave the buffer empty, and the newline then reads 0 from the empty
  buffer.
\<close>

theorem digitless_line_sets_duty_zero:
  assumes "\<forall>c\<in>set cs. \<not> isDigit c"
    and "buffer s = []" and "serial_rx s = []"
    and "concat bss = cs @ [newline]"
  shows "buffer (feed cs s) = [] \<and> pwn (run bss s) = 0 \<and> buffer (run bss s) = []"
proof -
  have b: "buffer (feed cs s) = []"
    using assms(2,1) by (rule buffer_feed_no_digits)
  have "pwn (run bss s) = pwn (consume newline (feed cs s))"
    "buffer (run bss s) = buffer (consume newline (feed cs s))"
    using run_globals [of s bss] assms(3,4) by (simp_all add: feed_append)
  then show ?thesis
    using b by (simp add: consume_newline_empty)
qed

theorem digitless_line_sets_duty_zero_witness:
  "list_all (\<lambda>c. \<not> isDigit c) ''-x y'' \<and>
   pwn (run [''-x'', '' y'' @ [newline]] (initial\<lparr>pwn := 50\<rparr>)) = 0"
proof -
  have h: "\<forall>c\<in>set ''-x y''. \<not> isDigit c"
    by (simp add: isDigit_def)
  show ?thesis
    using h
      digitless_line_sets_duty_zero [OF h, of "initial\<lparr>pwn := 50\<rparr>" "[''-x'', '' y'' @ [newline]]"]
    by (simp add: initial_def)
qed

text \<open>
  C10. Two runs that start with the same buffer and the same duty value, nothing
  waiting in the receive queue, and that receive the same bytes in the same iterations
  of \<open>loop()\<close>, end with the same buffer and the same duty value and add the same
  writes to the pin. When only the byte sequence as a whole is the same, they still end
  with the same buffer and the same duty value.
\<close>

theorem run_deterministic:
  assumes "pwn s = pwn t" and "buffer s = buffer t"
    and "serial_rx s = []" and "serial_rx t = []"
  shows "pwn (run bss s) = pwn (run bss t) \<and>
    buffer (run bss s) = buffer (run bss t) \<and>
    drop (length (pin_writes s)) (pin_writes (run bss s)) =
      drop (length (pin_writes t)) (pin_writes (run bss t)) \<and>
    (concat bss = concat bss' \<longrightarrow>
      pwn (run bss s) = pwn (run bss' t) \<and> buffer (run bss s) = buffer (run bss' t))"
proof -
  have g: "pwn (feed cs s) = pwn (feed cs t) \<and> buffer (feed cs s) = buffer (feed cs t)" for cs
    using assms(1,2) by (rule globals_feed_cong)
  obtain ws where "pin_writes (run bss s) = pin_writes s @ ws"
    "pin_writes (run bss t) = pin_writes t @ ws"
    using run_new_writes [OF assms] by blast
  then have "drop (length (pin_writes s)) (pin_writes (run bss s)) =
      drop (length (pin_writes t)) (pin_writes (run bss t))"
    by simp
  then show ?thesis
    using g run_globals [OF assms(3)] run_globals [OF assms(4)] by simp
qed

theorem run_deterministic_witness:
  "pin_writes (run [''12'', ''8'' @ [newline]] (initial\<lparr>pin_writes := [(PWM_PIN, 0)]\<rparr>)) =
     (PWM_PIN, 0) # pin_writes (run [''12'', ''8'' @ [newline]] initial) \<and>
   pwn (run [''12'', ''8'' @ [newline]] initial) = pwn (run [''128'' @ [newline]] initial)"
proof -
  have w: "pin_writes (run [''12'', ''8'' @ [newline]] (initial\<lparr>pin_writes := [(PWM_PIN, 0)]\<rparr>)) =
      [(PWM_PIN, 0), (PWM_PIN, 0), (PWM_PIN, 128)]"
    by (simp add: initial_def loop_feed receive_def consume_def isDigit_def newline_def
      toInt_def atol_def isSpace_def digit_of_def long_to_int_def)
  show ?thesis
    using w run_deterministic [of "initial\<lparr>pin_writes := [(PWM_PIN, 0)]\<rparr>" initial
        "[''12'', ''8'' @ [newline]]" "[''128'' @ [newline]]"]
      run_deterministic [of initial initial
        "[''12'', ''8'' @ [newline]]" "[''128'' @ [newline]]"]
    by (simp add: initial_def)
qed

text \<open>
  The same byte sequence does not by itself give the same writes: every iteration
  writes once, also one that finds no byte waiting. The line \<open>5\<close> that arrives before
  the first iteration gives one write, of 5; the same line arriving after an iteration
  that found nothing gives two writes, of 0 and of 5.
\<close>

theorem same_bytes_different_writes:
  "concat [''5'' @ [newline]] = concat [[], ''5'' @ [newline]] \<and>
   pin_writes (run [''5'' @ [newline]] initial) = [(PWM_PIN, 5)] \<and>
   pin_writes (run [[], ''5'' @ [newline]] initial) = [(PWM_PIN, 0), (PWM_PIN, 5)] \<and>
   pin_writes (run [''5'' @ [newline]] initial) \<noteq> pin_writes (run [[], ''5'' @ [newline]] initial)"
  by (simp add: initial_def loop_feed receive_def consume_def isDigit_def newline_def
      toInt_def atol_def isSpace_def digit_of_def long_to_int_def)

end
